theory Spec2Isabelle
  imports Main
begin

section \<open>Data model\<close>

text \<open>
  A message is a byte slice (\<open>[]byte\<close>); a client is identified by the address of its
  \<open>Client\<close> struct (\<open>*Client\<close>), modelled as a natural number.
\<close>

type_synonym msg = string
type_synonym client = nat

subsection \<open>Constants of client.go\<close>

text \<open>
  \<open>time.Duration\<close> is a count of nanoseconds in an \<open>int64\<close>. Go evaluates constant
  expressions exactly; the constants are Go's \<open>time.Nanosecond\<close> ... \<open>time.Second\<close>.
\<close>

definition Nanosecond :: int where "Nanosecond = 1"
definition Microsecond :: int where "Microsecond = 1000 * Nanosecond"
definition Millisecond :: int where "Millisecond = 1000 * Microsecond"
definition Second :: int where "Second = 1000 * Millisecond"

definition writeWait :: int where "writeWait = 10 * Second"
definition pongWait :: int where "pongWait = 60 * Second"
definition pingPeriod :: int where "pingPeriod = (pongWait * 9) div 10"
definition maxMessageSize :: nat where "maxMessageSize = 512"

definition newline :: msg where "newline = [CHR 0x0A]"
definition space :: msg where "space = [CHR 0x20]"

subsection \<open>Channels\<close>

text \<open>
  A Go channel: the buffered values in arrival order, the capacity fixed by \<open>make\<close>,
  and whether \<open>close\<close> has been called.
\<close>

record 'a chan =
  buf :: "'a list"
  cap :: nat
  closed :: bool

definition make_chan :: "nat \<Rightarrow> 'a chan" where
  "make_chan n = \<lparr>buf = [], cap = n, closed = False\<rparr>"

text \<open>The two run-time panics of channel operations.\<close>

datatype panic = SendOnClosedChannel | CloseOfClosedChannel

text \<open>
  A blocking send \<open>ch <- v\<close>, as the runtime's \<open>chansend\<close> decides it: a closed channel
  panics; a receiver waiting at the channel takes the value directly; otherwise the
  value goes into the buffer if there is room; otherwise the sender is parked until a
  receiver arrives. \<open>receiver_waiting\<close> says whether a receiver is waiting.
\<close>

datatype 'a sent = Handoff | Buffered "'a chan" | Parked | Panics panic

definition chansend :: "'a chan \<Rightarrow> 'a \<Rightarrow> bool \<Rightarrow> 'a sent" where
  "chansend ch v receiver_waiting =
     (if closed ch then Panics SendOnClosedChannel
      else if receiver_waiting then Handoff
      else if length (buf ch) < cap ch then Buffered (ch\<lparr>buf := buf ch @ [v]\<rparr>)
      else Parked)"

text \<open>
  A receive \<open>v, ok := <-ch\<close>: the oldest buffered value; on an empty closed channel the
  zero value with \<open>ok = false\<close>; on an empty open channel the receiver blocks (\<open>None\<close>).
\<close>

definition chanrecv :: "msg chan \<Rightarrow> (msg \<times> bool \<times> msg chan) option" where
  "chanrecv ch =
     (case buf ch of
        [] \<Rightarrow> if closed ch then Some ([], False, ch) else None
      | m # rest \<Rightarrow> Some (m, True, ch\<lparr>buf := rest\<rparr>))"

subsection \<open>The hub\<close>

record Hub =
  clients :: "client \<rightharpoonup> bool"
  broadcast :: "msg chan"
  register :: "client chan"
  unregister :: "client chan"

definition newHub :: Hub where
  "newHub = \<lparr>clients = Map.empty, broadcast = make_chan 0,
             register = make_chan 0, unregister = make_chan 0\<rparr>"

text \<open>
  The operations the hub performs on the clients' \<open>send\<close> channels, in the order it
  performs them.
\<close>

datatype chan_op = Enqueue client msg | Close client

text \<open>
  The state the dispatch loop works on: the hub, the \<open>send\<close> channel of every client
  (\<open>serveWs\<close> makes one channel per \<open>Client\<close>), and the history of channel operations.
\<close>

record world =
  hub :: Hub
  sendq :: "client \<Rightarrow> msg chan"
  ops :: "chan_op list"

definition registered :: "world \<Rightarrow> client set" where
  "registered w = dom (clients (hub w))"

text \<open>\<open>case client := <-h.register\<close>\<close>

definition on_register :: "client \<Rightarrow> world \<Rightarrow> world" where
  "on_register c w = w\<lparr>hub := (hub w)\<lparr>clients := (clients (hub w))(c \<mapsto> True)\<rparr>\<rparr>"

text \<open>\<open>close(client.send)\<close>: closing a closed channel panics.\<close>

definition close_send :: "client \<Rightarrow> world \<Rightarrow> panic + world" where
  "close_send c w =
     (if closed (sendq w c) then Inl CloseOfClosedChannel
      else Inr (w\<lparr>sendq := (sendq w)(c := (sendq w c)\<lparr>closed := True\<rparr>),
                  ops := ops w @ [Close c]\<rparr>))"

text \<open>\<open>delete(h.clients, client)\<close>\<close>

definition delete_client :: "client \<Rightarrow> world \<Rightarrow> world" where
  "delete_client c w = w\<lparr>hub := (hub w)\<lparr>clients := (clients (hub w))(c := None)\<rparr>\<rparr>"

text \<open>\<open>case client := <-h.unregister\<close>\<close>

definition on_unregister :: "client \<Rightarrow> world \<Rightarrow> panic + world" where
  "on_unregister c w =
     (if clients (hub w) c \<noteq> None then close_send c (delete_client c w)
      else Inr w)"

text \<open>
  The inner \<open>select\<close> of the broadcast case for one client: a send on a closed channel
  panics; with room in the buffer the message is appended; otherwise the \<open>default\<close>
  branch closes the channel and deletes the client. (A write pump waiting at the channel
  takes the message directly; the buffer is empty then, so this is a send that finds
  room, followed by the pump's receive.)
\<close>

definition select_send :: "client \<Rightarrow> msg \<Rightarrow> world \<Rightarrow> panic + world" where
  "select_send c message w =
     (let ch = sendq w c in
      if closed ch then Inl SendOnClosedChannel
      else if length (buf ch) < cap ch
        then Inr (w\<lparr>sendq := (sendq w)(c := ch\<lparr>buf := buf ch @ [message]\<rparr>),
                    ops := ops w @ [Enqueue c message]\<rparr>)
      else (case close_send c w of
              Inl p \<Rightarrow> Inl p
            | Inr w' \<Rightarrow> Inr (delete_client c w')))"

text \<open>
  \<open>for client := range h.clients\<close>: Go visits the keys of the map in an unspecified
  order, each key once; the order is the argument \<open>order\<close>. Only the key being visited
  is ever deleted, so the keys visited are those present when the loop starts.
\<close>

fun fanout :: "client list \<Rightarrow> msg \<Rightarrow> world \<Rightarrow> panic + world" where
  "fanout [] message w = Inr w"
| "fanout (c # cs) message w =
     (case select_send c message w of
        Inl p \<Rightarrow> Inl p
      | Inr w' \<Rightarrow> fanout cs message w')"

definition range_order :: "world \<Rightarrow> client list \<Rightarrow> bool" where
  "range_order w order = (distinct order \<and> set order = registered w)"

text \<open>
  The events of the system: the three cases of the hub's \<open>select\<close> (a broadcast comes
  with the order in which the runtime ranges over the map), and a client's write pump
  taking one message off its \<open>send\<close> channel.
\<close>

datatype event =
    Register client
  | Unregister client
  | Broadcast msg "client list"
  | Pump client

definition pump_recv :: "client \<Rightarrow> world \<Rightarrow> world" where
  "pump_recv c w = w\<lparr>sendq := (sendq w)(c := (sendq w c)\<lparr>buf := tl (buf (sendq w c))\<rparr>)\<rparr>"

fun step :: "event \<Rightarrow> world \<Rightarrow> panic + world" where
  "step (Register c) w = Inr (on_register c w)"
| "step (Unregister c) w = on_unregister c w"
| "step (Broadcast message order) w = fanout order message w"
| "step (Pump c) w = Inr (pump_recv c w)"

text \<open>One iteration of \<open>Hub.run\<close>'s loop per event; a panic ends the program.\<close>

fun run :: "event list \<Rightarrow> world \<Rightarrow> panic + world" where
  "run [] w = Inr w"
| "run (e # es) w = (case step e w of Inl p \<Rightarrow> Inl p | Inr w' \<Rightarrow> run es w')"

text \<open>
  The start of the program: a new hub, and for every client the channel that \<open>serveWs\<close>
  makes for it, \<open>make(chan []byte, 256)\<close>.
\<close>

definition init :: world where
  "init = \<lparr>hub = newHub, sendq = (\<lambda>c. make_chan 256), ops = []\<rparr>"

subsection \<open>Schedules and bookkeeping\<close>

text \<open>The non-blocking send finds room in a client's queue.\<close>

definition has_room :: "world \<Rightarrow> client \<Rightarrow> bool" where
  "has_room w c = (length (buf (sendq w c)) < cap (sendq w c))"

text \<open>
  What the fan-out leaves behind when no send panics, in closed form: every client ranged
  over either gets the message appended or is closed and deleted.
\<close>

definition fanout_result :: "client list \<Rightarrow> msg \<Rightarrow> world \<Rightarrow> world" where
  "fanout_result order m w =
     w\<lparr>hub := (hub w)\<lparr>clients :=
            (\<lambda>c. if c \<in> set order \<and> \<not> has_room w c then None else clients (hub w) c)\<rparr>,
       sendq := (\<lambda>c. if c \<in> set order
                      then (if has_room w c then (sendq w c)\<lparr>buf := buf (sendq w c) @ [m]\<rparr>
                            else (sendq w c)\<lparr>closed := True\<rparr>)
                      else sendq w c),
       ops := ops w @ map (\<lambda>c. if has_room w c then Enqueue c m else Close c) order\<rparr>"

text \<open>
  The clients an event acts on after their registration: the client of a deregistration
  and the clients a broadcast ranges over. A sequence of events is causally ordered when
  no registration of a client comes after an event that targets it.
\<close>

fun targets :: "event \<Rightarrow> client list" where
  "targets (Unregister c) = [c]"
| "targets (Broadcast message order) = order"
| "targets (Register c) = []"
| "targets (Pump c) = []"

fun causal :: "event list \<Rightarrow> bool" where
  "causal [] = True"
| "causal (e # es) = ((\<forall>c\<in>set (targets e). Register c \<notin> set es) \<and> causal es)"

text \<open>
  The order that comes with each broadcast is an enumeration of the registry as it is
  when the broadcast is processed, as the runtime's \<open>range\<close> gives it.
\<close>

fun sched_ok :: "world \<Rightarrow> event list \<Rightarrow> bool" where
  "sched_ok w [] = True"
| "sched_ok w (e # es) =
     ((case e of Broadcast message order \<Rightarrow> range_order w order | _ \<Rightarrow> True) \<and>
      (case step e w of Inl p \<Rightarrow> True | Inr w' \<Rightarrow> sched_ok w' es))"

text \<open>The clients registered, deregistered and evicted in the course of a run.\<close>

fun registered_by :: "event \<Rightarrow> client list" where
  "registered_by (Register c) = [c]"
| "registered_by e = []"

fun deregistered_by :: "event \<Rightarrow> client list" where
  "deregistered_by (Unregister c) = [c]"
| "deregistered_by e = []"

fun evicted_by :: "event \<Rightarrow> world \<Rightarrow> client list" where
  "evicted_by (Broadcast message order) w = filter (\<lambda>c. \<not> has_room w c) order"
| "evicted_by e w = []"

definition registrations :: "event list \<Rightarrow> client set" where
  "registrations es = set (concat (map registered_by es))"

definition deregistrations :: "event list \<Rightarrow> client set" where
  "deregistrations es = set (concat (map deregistered_by es))"

fun evictions :: "event list \<Rightarrow> world \<Rightarrow> client set" where
  "evictions [] w = {}"
| "evictions (e # es) w =
     set (evicted_by e w) \<union> (case step e w of Inl p \<Rightarrow> {} | Inr w' \<Rightarrow> evictions es w')"

fun op_client :: "chan_op \<Rightarrow> client" where
  "op_client (Enqueue c message) = c"
| "op_client (Close c) = c"

text \<open>
  The hub closes a queue only when it deletes the client, and \<open>serveWs\<close> registers a
  client once, before anything else happens to it: a closed queue belongs to no
  registered client, now or later in the run.
\<close>

definition closed_inv :: "world \<Rightarrow> event list \<Rightarrow> bool" where
  "closed_inv w es =
     (\<forall>c. closed (sendq w c) \<longrightarrow> c \<notin> registered w \<and> Register c \<notin> set es)"

definition hub_inv :: "world \<Rightarrow> bool" where
  "hub_inv w = (\<forall>c\<in>registered w. \<not> closed (sendq w c))"

text \<open>Example states.\<close>

definition three_clients :: world where
  "three_clients = \<lparr>hub = newHub\<lparr>clients := [1 \<mapsto> True, 2 \<mapsto> True, 3 \<mapsto> True]\<rparr>,
         sendq = (\<lambda>c. make_chan 256), ops = []\<rparr>"

definition one_client :: world where
  "one_client = \<lparr>hub = newHub\<lparr>clients := [1 \<mapsto> True]\<rparr>,
                 sendq = (\<lambda>c. make_chan 256), ops = []\<rparr>"

definition stalled_client :: world where
  "stalled_client =
     \<lparr>hub = newHub\<lparr>clients := [2 \<mapsto> True, 3 \<mapsto> True]\<rparr>,
      sendq = (\<lambda>c. if c = 2 then \<lparr>buf = replicate 256 ''x'', cap = 256, closed = False\<rparr>
                    else make_chan 256),
      ops = []\<rparr>"

subsection \<open>The read pump\<close>

text \<open>
  \<open>bytes.Replace(s, old, new, -1)\<close> for a non-empty \<open>old\<close> (the only use is with the
  one-byte \<open>newline\<close>): every non-overlapping occurrence, from the left, is replaced.
\<close>

function Replace :: "msg \<Rightarrow> msg \<Rightarrow> msg \<Rightarrow> msg" where
  "Replace [] old new = []"
| "Replace (b # s) old new =
     (if old \<noteq> [] \<and> take (length old) (b # s) = old
      then new @ Replace (drop (length old) (b # s)) old new
      else b # Replace s old new)"
  by pat_completeness auto
termination
  by (relation "measure (\<lambda>(s, old, new). length s)") auto

text \<open>
  \<open>bytes.TrimSpace\<close> removes the leading and the trailing white space, rune by rune,
  where white space is \<open>unicode.IsSpace\<close>: U+0009 to U+000D, U+0020, U+0085, U+00A0,
  U+1680, U+2000 to U+200A, U+2028, U+2029, U+202F, U+205F and U+3000. These are their
  UTF-8 encodings; any other byte sequence decodes to a rune that is not white space (or
  to the error rune) and stops the trimming.
\<close>

definition space_runes :: "msg list" where
  "space_runes =
     [[CHR 0x09], [CHR 0x0A], [CHR 0x0B], [CHR 0x0C], [CHR 0x0D], [CHR 0x20],
      [CHR 0xC2, CHR 0x85], [CHR 0xC2, CHR 0xA0],
      [CHR 0xE1, CHR 0x9A, CHR 0x80],
      [CHR 0xE2, CHR 0x80, CHR 0x80], [CHR 0xE2, CHR 0x80, CHR 0x81],
      [CHR 0xE2, CHR 0x80, CHR 0x82], [CHR 0xE2, CHR 0x80, CHR 0x83],
      [CHR 0xE2, CHR 0x80, CHR 0x84], [CHR 0xE2, CHR 0x80, CHR 0x85],
      [CHR 0xE2, CHR 0x80, CHR 0x86], [CHR 0xE2, CHR 0x80, CHR 0x87],
      [CHR 0xE2, CHR 0x80, CHR 0x88], [CHR 0xE2, CHR 0x80, CHR 0x89],
      [CHR 0xE2, CHR 0x80, CHR 0x8A],
      [CHR 0xE2, CHR 0x80, CHR 0xA8], [CHR 0xE2, CHR 0x80, CHR 0xA9],
      [CHR 0xE2, CHR 0x80, CHR 0xAF],
      [CHR 0xE2, CHR 0x81, CHR 0x9F],
      [CHR 0xE3, CHR 0x80, CHR 0x80]]"

text \<open>
  The width of the white-space rune at the start, and at the end, of a slice; 0 if there
  is none.
\<close>

definition leading_space :: "msg \<Rightarrow> nat" where
  "leading_space s =
     (case find (\<lambda>e. take (length e) s = e) space_runes of
        None \<Rightarrow> 0 | Some e \<Rightarrow> length e)"

definition trailing_space :: "msg \<Rightarrow> nat" where
  "trailing_space s =
     (case find (\<lambda>e. length e \<le> length s \<and> drop (length s - length e) s = e) space_runes of
        None \<Rightarrow> 0 | Some e \<Rightarrow> length e)"

lemma leading_space_Nil: "leading_space [] = 0"
  by (simp add: leading_space_def space_runes_def)

lemma trailing_space_Nil: "trailing_space [] = 0"
  by (simp add: trailing_space_def space_runes_def)

lemma leading_space_shorter: "0 < leading_space s \<Longrightarrow> length s - leading_space s < length s"
  by (cases s) (simp_all add: leading_space_Nil)

lemma trailing_space_shorter:
  "0 < trailing_space s \<Longrightarrow> length s - trailing_space s < length s"
  by (cases s) (simp_all add: trailing_space_Nil)

function TrimLeft :: "msg \<Rightarrow> msg" where
  "TrimLeft s = (if leading_space s = 0 then s else TrimLeft (drop (leading_space s) s))"
  by pat_completeness auto
termination
  by (relation "measure length") (simp_all add: leading_space_shorter)

function TrimRight :: "msg \<Rightarrow> msg" where
  "TrimRight s =
     (if trailing_space s = 0 then s else TrimRight (take (length s - trailing_space s) s))"
  by pat_completeness auto
termination
  by (relation "measure length") (simp_all add: trailing_space_shorter)

declare TrimLeft.simps [simp del] TrimRight.simps [simp del]

definition TrimSpace :: "msg \<Rightarrow> msg" where
  "TrimSpace s = TrimRight (TrimLeft s)"

text \<open>
  Line 90 of client.go:
  \<open>message = bytes.TrimSpace(bytes.Replace(message, newline, space, -1))\<close>.
\<close>

definition normalize_msg :: "msg \<Rightarrow> msg" where
  "normalize_msg message = TrimSpace (Replace message newline space)"

text \<open>
  \<open>readPump\<close> over the results of successive \<open>ReadMessage\<close> calls: a message
  (\<open>Inr\<close>) is normalised and sent to the hub's \<open>broadcast\<close> channel; an error
  (\<open>Inl\<close>, with whether it is an unexpected close error) is logged if unexpected and
  ends the loop, and the deferred function sends the client to \<open>unregister\<close> and closes
  the connection. With no further result the pump waits in \<open>ReadMessage\<close>.
\<close>

datatype pump_effect = ToBroadcast msg | ToUnregister client | ConnClose | LogReadError

fun readPump :: "client \<Rightarrow> (bool + msg) list \<Rightarrow> pump_effect list" where
  "readPump c [] = []"
| "readPump c (Inl unexpected # reads) =
     (if unexpected then [LogReadError] else []) @ [ToUnregister c, ConnClose]"
| "readPump c (Inr message # reads) = ToBroadcast (normalize_msg message) # readPump c reads"

text \<open>
  The normalisation as the specification words it: each run of newlines becomes a single
  delimiter, then the outer white space is stripped.
\<close>

function collapse_newlines :: "msg \<Rightarrow> msg" where
  "collapse_newlines [] = []"
| "collapse_newlines (b # s) =
     (if b = CHR 0x0A then CHR 0x20 # collapse_newlines (dropWhile (\<lambda>x. x = CHR 0x0A) s)
      else b # collapse_newlines s)"
  by pat_completeness auto
termination
  by (relation "measure length") (auto simp: less_Suc_eq_le length_dropWhile_le)

definition normalize_spec :: "msg \<Rightarrow> msg" where
  "normalize_spec message = TrimSpace (collapse_newlines message)"

subsection \<open>The write pump\<close>

text \<open>
  While the write pump runs, the hub may act on the client's \<open>send\<close> channel: a broadcast
  appends a message if there is room and closes the channel if there is none
  (\<open>Push\<close>), a deregistration closes it (\<open>Shut\<close>).
\<close>

datatype hub_act = Push msg | Shut

fun hub_does :: "msg chan \<Rightarrow> hub_act \<Rightarrow> msg chan" where
  "hub_does ch (Push m) =
     (if closed ch then ch
      else if length (buf ch) < cap ch then ch\<lparr>buf := buf ch @ [m]\<rparr>
      else ch\<lparr>closed := True\<rparr>)"
| "hub_does ch Shut = ch\<lparr>closed := True\<rparr>"

text \<open>
  The loop \<open>for i := 0; i < n; i++ { w.Write(newline); w.Write(<-c.send) }\<close>, with the
  hub's actions before each receive; the frame written so far is the last argument.
\<close>

fun drain :: "nat \<Rightarrow> hub_act list list \<Rightarrow> msg chan \<Rightarrow> msg \<Rightarrow> (msg \<times> msg chan) option" where
  "drain 0 during ch frame = Some (frame, ch)"
| "drain (Suc n) during ch frame =
     (case chanrecv (foldl hub_does ch (case during of [] \<Rightarrow> [] | a # as \<Rightarrow> a)) of
        None \<Rightarrow> None
      | Some (m, ok, ch') \<Rightarrow> drain n (tl during) ch' (frame @ newline @ m))"

text \<open>
  One pass through the \<open>select\<close> of \<open>writePump\<close>. In the \<open>c.send\<close> case the pump
  receives, writes a close message and returns if the channel was closed, opens a writer
  (which may fail), reads \<open>len(c.send)\<close> after the hub's actions \<open>before\<close>, drains that
  many messages into the frame and closes the writer (which may fail). In the ticker
  case it writes a ping. The result says what went on the wire and whether the loop
  goes on.
\<close>

datatype wire = TextMessage msg | CloseMessage | PingMessage

datatype pump_step = Continue "wire list" "msg chan" | Return "wire list" "msg chan" | Blocked

definition writePump_send_case ::
  "msg chan \<Rightarrow> bool \<Rightarrow> hub_act list \<Rightarrow> hub_act list list \<Rightarrow> bool \<Rightarrow> pump_step" where
  "writePump_send_case ch nextWriter_ok before during close_ok =
     (case chanrecv ch of
        None \<Rightarrow> Blocked
      | Some (message, ok, ch1) \<Rightarrow>
          if \<not> ok then Return [CloseMessage] ch1
          else if \<not> nextWriter_ok then Return [] ch1
          else let ch2 = foldl hub_does ch1 before; n = length (buf ch2) in
            (case drain n during ch2 message of
               None \<Rightarrow> Blocked
             | Some (frame, ch3) \<Rightarrow>
                 if close_ok then Continue [TextMessage frame] ch3 else Return [] ch3))"

definition writePump_tick_case :: "msg chan \<Rightarrow> bool \<Rightarrow> pump_step" where
  "writePump_tick_case ch ping_ok = (if ping_ok then Continue [PingMessage] ch else Return [] ch)"

definition three_queued :: "msg chan" where
  "three_queued = \<lparr>buf = [''a'', ''b'', ''c''], cap = 256, closed = False\<rparr>"

subsection \<open>The connection entry point\<close>

text \<open>
  \<open>serveWs\<close> as the sequence of its actions, given the outcome of \<open>upgrader.Upgrade\<close>
  (\<open>None\<close> for an error) and the address of the \<open>Client\<close> it allocates.
\<close>

record Client =
  conn :: nat
  send :: "msg chan"

datatype action =
    LogUpgradeError
  | NewClient client Client
  | SendRegister client
  | GoWritePump client
  | GoReadPump client

definition serveWs :: "nat option \<Rightarrow> client \<Rightarrow> action list" where
  "serveWs upgraded c =
     (case upgraded of
        None \<Rightarrow> [LogUpgradeError]
      | Some cn \<Rightarrow>
          [NewClient c \<lparr>conn = cn, send = make_chan 256\<rparr>,
           SendRegister c, GoWritePump c, GoReadPump c])"

section \<open>Keepalive period\<close>

text \<open>
  C8: the ping period is strictly less than the pong wait and is exactly nine tenths of
  it (the integer division of the constants leaves no remainder); the intermediate
  product fits the 64-bit \<open>Duration\<close>.
\<close>

theorem pingPeriod_nine_tenths:
  "pingPeriod < pongWait \<and> 10 * pingPeriod = 9 * pongWait \<and> (pongWait * 9) mod 10 = 0
   \<and> pingPeriod = 54 * Second \<and> 0 < pingPeriod \<and> pongWait * 9 < 2 ^ 63"
  by (simp add: pingPeriod_def pongWait_def Second_def Millisecond_def Microsecond_def
      Nanosecond_def)

section \<open>The dispatch loop\<close>

subsection \<open>The fan-out in closed form\<close>

lemma select_send_room:
  "\<not> closed (sendq w c) \<Longrightarrow> has_room w c \<Longrightarrow>
   select_send c m w =
     Inr (w\<lparr>sendq := (sendq w)(c := (sendq w c)\<lparr>buf := buf (sendq w c) @ [m]\<rparr>),
            ops := ops w @ [Enqueue c m]\<rparr>)"
  by (simp add: select_send_def has_room_def Let_def)

lemma select_send_full:
  "\<not> closed (sendq w c) \<Longrightarrow> \<not> has_room w c \<Longrightarrow>
   select_send c m w =
     Inr (w\<lparr>hub := (hub w)\<lparr>clients := (clients (hub w))(c := None)\<rparr>,
            sendq := (sendq w)(c := (sendq w c)\<lparr>closed := True\<rparr>),
            ops := ops w @ [Close c]\<rparr>)"
  by (simp add: select_send_def has_room_def Let_def close_send_def delete_client_def)

lemma fanout_result_Nil: "fanout_result [] m w = w"
  by (simp add: fanout_result_def)

lemma fanout_result_Cons_room:
  assumes "c \<notin> set cs" "has_room w c"
  shows "fanout_result cs m
           (w\<lparr>sendq := (sendq w)(c := (sendq w c)\<lparr>buf := buf (sendq w c) @ [m]\<rparr>),
              ops := ops w @ [Enqueue c m]\<rparr>)
         = fanout_result (c # cs) m w"
proof -
  let ?w1 = "w\<lparr>sendq := (sendq w)(c := (sendq w c)\<lparr>buf := buf (sendq w c) @ [m]\<rparr>),
              ops := ops w @ [Enqueue c m]\<rparr>"
  have r: "\<And>d. d \<in> set cs \<Longrightarrow> has_room ?w1 d = has_room w d"
    using assms(1) by (auto simp: has_room_def)
  have m: "map (\<lambda>c. if has_room ?w1 c then Enqueue c m else Close c) cs
           = map (\<lambda>c. if has_room w c then Enqueue c m else Close c) cs"
    using r by (intro map_cong) auto
  have h: "(\<lambda>d. if d \<in> set cs \<and> \<not> has_room ?w1 d then None else clients (hub ?w1) d)
         = (\<lambda>d. if d \<in> set (c # cs) \<and> \<not> has_room w d then None else clients (hub w) d)"
    using r assms by (auto simp: fun_eq_iff)
  have q: "(\<lambda>d. if d \<in> set cs
              then (if has_room ?w1 d then (sendq ?w1 d)\<lparr>buf := buf (sendq ?w1 d) @ [m]\<rparr>
                    else (sendq ?w1 d)\<lparr>closed := True\<rparr>)
              else sendq ?w1 d)
         = (\<lambda>d. if d \<in> set (c # cs)
              then (if has_room w d then (sendq w d)\<lparr>buf := buf (sendq w d) @ [m]\<rparr>
                    else (sendq w d)\<lparr>closed := True\<rparr>)
              else sendq w d)"
    using r assms by (auto simp: fun_eq_iff)
  show ?thesis
    unfolding fanout_result_def m h q using assms(2) by simp
qed

lemma fanout_result_Cons_full:
  assumes "c \<notin> set cs" "\<not> has_room w c"
  shows "fanout_result cs m
           (w\<lparr>hub := (hub w)\<lparr>clients := (clients (hub w))(c := None)\<rparr>,
              sendq := (sendq w)(c := (sendq w c)\<lparr>closed := True\<rparr>),
              ops := ops w @ [Close c]\<rparr>)
         = fanout_result (c # cs) m w"
proof -
  let ?w1 = "w\<lparr>hub := (hub w)\<lparr>clients := (clients (hub w))(c := None)\<rparr>,
              sendq := (sendq w)(c := (sendq w c)\<lparr>closed := True\<rparr>),
              ops := ops w @ [Close c]\<rparr>"
  have r: "\<And>d. d \<in> set cs \<Longrightarrow> has_room ?w1 d = has_room w d"
    using assms(1) by (auto simp: has_room_def)
  have m: "map (\<lambda>c. if has_room ?w1 c then Enqueue c m else Close c) cs
           = map (\<lambda>c. if has_room w c then Enqueue c m else Close c) cs"
    using r by (intro map_cong) auto
  have h: "(\<lambda>d. if d \<in> set cs \<and> \<not> has_room ?w1 d then None else clients (hub ?w1) d)
         = (\<lambda>d. if d \<in> set (c # cs) \<and> \<not> has_room w d then None else clients (hub w) d)"
    using r assms by (auto simp: fun_eq_iff)
  have q: "(\<lambda>d. if d \<in> set cs
              then (if has_room ?w1 d then (sendq ?w1 d)\<lparr>buf := buf (sendq ?w1 d) @ [m]\<rparr>
                    else (sendq ?w1 d)\<lparr>closed := True\<rparr>)
              else sendq ?w1 d)
         = (\<lambda>d. if d \<in> set (c # cs)
              then (if has_room w d then (sendq w d)\<lparr>buf := buf (sendq w d) @ [m]\<rparr>
                    else (sendq w d)\<lparr>closed := True\<rparr>)
              else sendq w d)"
    using r assms by (auto simp: fun_eq_iff)
  show ?thesis
    unfolding fanout_result_def m h q using assms(2) by simp
qed

lemma fanout_eq:
  "distinct order \<Longrightarrow> \<forall>c\<in>set order. \<not> closed (sendq w c) \<Longrightarrow>
   fanout order m w = Inr (fanout_result order m w)"
proof (induction order arbitrary: w)
  case Nil
  then show ?case by (simp add: fanout_result_Nil)
next
  case (Cons c cs)
  have nc: "\<not> closed (sendq w c)" and ni: "c \<notin> set cs" and d: "distinct cs"
    using Cons.prems by auto
  show ?case
  proof (cases "has_room w c")
    case True
    let ?w1 = "w\<lparr>sendq := (sendq w)(c := (sendq w c)\<lparr>buf := buf (sendq w c) @ [m]\<rparr>),
            ops := ops w @ [Enqueue c m]\<rparr>"
    have s: "select_send c m w = Inr ?w1" using nc True by (rule select_send_room)
    have "\<forall>d\<in>set cs. \<not> closed (sendq ?w1 d)" using Cons.prems by auto
    from Cons.IH[OF d this] have "fanout cs m ?w1 = Inr (fanout_result cs m ?w1)" .
    then show ?thesis
      by (simp only: fanout.simps s sum.case fanout_result_Cons_room[OF ni True])
  next
    case False
    let ?w1 = "w\<lparr>hub := (hub w)\<lparr>clients := (clients (hub w))(c := None)\<rparr>,
            sendq := (sendq w)(c := (sendq w c)\<lparr>closed := True\<rparr>),
            ops := ops w @ [Close c]\<rparr>"
    have s: "select_send c m w = Inr ?w1" using nc False by (rule select_send_full)
    have "\<forall>d\<in>set cs. \<not> closed (sendq ?w1 d)" using Cons.prems by auto
    from Cons.IH[OF d this] have "fanout cs m ?w1 = Inr (fanout_result cs m ?w1)" .
    then show ?thesis
      by (simp only: fanout.simps s sum.case fanout_result_Cons_full[OF ni False])
  qed
qed

lemma fanout_result_simps:
  "clients (hub (fanout_result order m w)) =
     (\<lambda>c. if c \<in> set order \<and> \<not> has_room w c then None else clients (hub w) c)"
  "sendq (fanout_result order m w) c =
     (if c \<in> set order
      then (if has_room w c then (sendq w c)\<lparr>buf := buf (sendq w c) @ [m]\<rparr>
            else (sendq w c)\<lparr>closed := True\<rparr>)
      else sendq w c)"
  "ops (fanout_result order m w) =
     ops w @ map (\<lambda>c. if has_room w c then Enqueue c m else Close c) order"
  "broadcast (hub (fanout_result order m w)) = broadcast (hub w)"
  "register (hub (fanout_result order m w)) = register (hub w)"
  "unregister (hub (fanout_result order m w)) = unregister (hub w)"
  by (simp_all add: fanout_result_def)

lemma registered_fanout_result:
  "set order = registered w \<Longrightarrow>
   registered (fanout_result order m w) = {c \<in> registered w. has_room w c}"
  by (auto simp: registered_def fanout_result_simps split: if_splits)

subsection \<open>One event, then a run\<close>

text \<open>
  Each event keeps \<open>closed_inv\<close>, does not panic under it, changes the registry by what
  it registers, deregisters and evicts, and operates only on queues of clients that are
  registered when it is processed.
\<close>

lemma registrations_Cons: "registrations (e # es) = set (registered_by e) \<union> registrations es"
  by (simp add: registrations_def)

lemma deregistrations_Cons:
  "deregistrations (e # es) = set (deregistered_by e) \<union> deregistrations es"
  by (simp add: deregistrations_def)

lemma mem_registrations: "c \<in> registrations es \<longleftrightarrow> Register c \<in> set es"
proof (induction es)
  case Nil
  then show ?case by (simp add: registrations_def)
next
  case (Cons e es)
  then show ?case by (cases e) (auto simp: registrations_Cons)
qed

lemma step_char_reg:
  assumes inv: "closed_inv w (e # es)" and cau: "causal (e # es)" and sch: "sched_ok w (e # es)"
   and Register: "e = Register c"
  shows "\<exists>w1 new. step e w = Inr w1 \<and> closed_inv w1 es \<and>
           registered w1 = (registered w \<union> set (registered_by e)) - set (deregistered_by e)
                             - set (evicted_by e w) \<and>
           ops w1 = ops w @ new \<and> op_client ` set new \<subseteq> registered w \<and>
           (\<forall>c. closed (sendq w c) \<longrightarrow> closed (sendq w1 c))"
    using inv Register by (auto simp: closed_inv_def on_register_def registered_def)

lemma step_char_unreg:
  assumes inv: "closed_inv w (e # es)" and cau: "causal (e # es)" and sch: "sched_ok w (e # es)"
   and Unregister: "e = Unregister c"
  shows "\<exists>w1 new. step e w = Inr w1 \<and> closed_inv w1 es \<and>
           registered w1 = (registered w \<union> set (registered_by e)) - set (deregistered_by e)
                             - set (evicted_by e w) \<and>
           ops w1 = ops w @ new \<and> op_client ` set new \<subseteq> registered w \<and>
           (\<forall>c. closed (sendq w c) \<longrightarrow> closed (sendq w1 c))"
  proof (cases "c \<in> registered w")
    case True
    then have "\<not> closed (sendq w c)" using inv by (auto simp: closed_inv_def)
    then show ?thesis
      using True inv cau Unregister
      by (auto simp: closed_inv_def on_unregister_def registered_def close_send_def
            delete_client_def)
  next
    case False
    then show ?thesis
      using inv cau Unregister
      by (auto simp: closed_inv_def on_unregister_def registered_def)
  qed

lemma step_char_pump:
  assumes inv: "closed_inv w (e # es)" and cau: "causal (e # es)" and sch: "sched_ok w (e # es)"
   and Pump: "e = Pump c"
  shows "\<exists>w1 new. step e w = Inr w1 \<and> closed_inv w1 es \<and>
           registered w1 = (registered w \<union> set (registered_by e)) - set (deregistered_by e)
                             - set (evicted_by e w) \<and>
           ops w1 = ops w @ new \<and> op_client ` set new \<subseteq> registered w \<and>
           (\<forall>c. closed (sendq w c) \<longrightarrow> closed (sendq w1 c))"
    using inv Pump by (auto simp: closed_inv_def pump_recv_def registered_def)

lemma op_client_fanout:
  "map op_client (map (\<lambda>c. if has_room w c then Enqueue c m else Close c) order) = order"
  by (induction order) simp_all

lemma step_char_bc:
  assumes inv: "closed_inv w (e # es)" and cau: "causal (e # es)" and sch: "sched_ok w (e # es)"
   and Broadcast: "e = Broadcast m order"
  shows "\<exists>w1 new. step e w = Inr w1 \<and> closed_inv w1 es \<and>
           registered w1 = (registered w \<union> set (registered_by e)) - set (deregistered_by e)
                             - set (evicted_by e w) \<and>
           ops w1 = ops w @ new \<and> op_client ` set new \<subseteq> registered w \<and>
           (\<forall>c. closed (sendq w c) \<longrightarrow> closed (sendq w1 c))"
proof -
  let ?w1 = "fanout_result order m w"
  let ?new = "map (\<lambda>c. if has_room w c then Enqueue c m else Close c) order"
  have ro: "distinct order" "set order = registered w"
    using sch Broadcast by (simp_all add: range_order_def)
  have op: "\<forall>c\<in>set order. \<not> closed (sendq w c)"
    using inv ro(2) unfolding closed_inv_def by blast
  have st: "step e w = Inr ?w1"
    using fanout_eq[OF ro(1) op] Broadcast by simp
  have reg: "registered ?w1 = {c \<in> registered w. has_room w c}"
    using ro(2) by (rule registered_fanout_result)
  have r2: "registered ?w1 = (registered w \<union> set (registered_by e)) - set (deregistered_by e)
                             - set (evicted_by e w)"
    unfolding reg Broadcast using ro(2) by auto
  have nr: "\<And>c. c \<in> set order \<Longrightarrow> Register c \<notin> set es"
    using cau Broadcast by simp
  have ci: "closed_inv ?w1 es"
    unfolding closed_inv_def
  proof (intro allI impI)
    fix c assume c: "closed (sendq ?w1 c)"
    show "c \<notin> registered ?w1 \<and> Register c \<notin> set es"
    proof (cases "c \<in> set order")
      case True
      then have "\<not> closed (sendq w c)" using op by blast
      then have "\<not> has_room w c" using c True by (auto simp: fanout_result_simps split: if_splits)
      then show ?thesis using nr[OF True] reg by simp
    next
      case False
      then have "closed (sendq w c)" using c by (simp add: fanout_result_simps)
      then have "c \<notin> registered w \<and> Register c \<notin> set (e # es)"
        using inv unfolding closed_inv_def by blast
      then show ?thesis using reg by simp
    qed
  qed
  have sub: "op_client ` set ?new \<subseteq> registered w"
    using op_client_fanout[of w m order] ro(2) by (metis set_map subset_refl)
  have mono: "\<forall>c. closed (sendq w c) \<longrightarrow> closed (sendq ?w1 c)"
    by (simp add: fanout_result_simps)
  have o: "ops ?w1 = ops w @ ?new" by (simp add: fanout_result_simps)
  show ?thesis
    apply (rule exI[of _ ?w1])
    apply (rule exI[of _ ?new])
    apply (intro conjI)
    apply (rule st)
    apply (rule ci)
    apply (rule r2)
    apply (rule o)
    apply (rule sub)
    apply (rule mono)
    done
qed

lemma step_char:
  assumes "closed_inv w (e # es)" "causal (e # es)" "sched_ok w (e # es)"
  shows "\<exists>w1 new. step e w = Inr w1 \<and> closed_inv w1 es \<and>
           registered w1 = (registered w \<union> set (registered_by e)) - set (deregistered_by e)
                             - set (evicted_by e w) \<and>
           ops w1 = ops w @ new \<and> op_client ` set new \<subseteq> registered w \<and>
           (\<forall>c. closed (sendq w c) \<longrightarrow> closed (sendq w1 c))"
proof (cases e)
  case (Register c)
  from step_char_reg[OF assms this] show ?thesis .
next
  case (Unregister c)
  from step_char_unreg[OF assms this] show ?thesis .
next
  case (Broadcast m order)
  from step_char_bc[OF assms this] show ?thesis .
next
  case (Pump c)
  from step_char_pump[OF assms this] show ?thesis .
qed

lemma run_char:
  "closed_inv w es \<Longrightarrow> causal es \<Longrightarrow> sched_ok w es \<Longrightarrow>
   \<exists>w' new. run es w = Inr w' \<and> closed_inv w' [] \<and>
     registered w' = (registered w \<union> registrations es) - deregistrations es - evictions es w \<and>
     ops w' = ops w @ new \<and> op_client ` set new \<subseteq> registered w \<union> registrations es \<and>
     (\<forall>c. closed (sendq w c) \<longrightarrow> closed (sendq w' c))"
proof (induction es arbitrary: w)
  case Nil
  then show ?case by (simp add: registrations_def deregistrations_def)
next
  case (Cons e es)
  from step_char[OF Cons.prems] obtain w1 new1 where
    s: "step e w = Inr w1" "closed_inv w1 es"
      "registered w1 = (registered w \<union> set (registered_by e)) - set (deregistered_by e)
                             - set (evicted_by e w)"
      "ops w1 = ops w @ new1" "op_client ` set new1 \<subseteq> registered w"
      "\<forall>c. closed (sendq w c) \<longrightarrow> closed (sendq w1 c)"
    by (elim exE conjE)
  have c2: "causal es" using Cons.prems(2) by simp
  have s2: "sched_ok w1 es" using Cons.prems(3) s(1) by simp
  from Cons.IH[OF s(2) c2 s2] obtain w' nethree_clients where
    r: "run es w1 = Inr w'" "closed_inv w' []"
      "registered w' = (registered w1 \<union> registrations es) - deregistrations es - evictions es w1"
      "ops w' = ops w1 @ nethree_clients" "op_client ` set nethree_clients \<subseteq> registered w1 \<union> registrations es"
      "\<forall>c. closed (sendq w1 c) \<longrightarrow> closed (sendq w' c)"
    by (elim exE conjE)
  have nore: "\<And>c. c \<in> set (deregistered_by e) \<union> set (evicted_by e w) \<Longrightarrow> c \<notin> registrations es"
    using Cons.prems(2) by (cases e) (auto simp: mem_registrations)
  have ev: "evictions (e # es) w = set (evicted_by e w) \<union> evictions es w1"
    using s(1) by simp
  have reg: "registered w' = (registered w \<union> registrations (e # es)) - deregistrations (e # es)
               - evictions (e # es) w"
    unfolding r(3) s(3) registrations_Cons deregistrations_Cons ev using nore by blast
  have sub: "op_client ` set (new1 @ nethree_clients) \<subseteq> registered w \<union> registrations (e # es)"
    using s(5) r(5) unfolding s(3) registrations_Cons by auto
  have rn: "run (e # es) w = Inr w'" using s(1) r(1) by simp
  have o: "ops w' = ops w @ (new1 @ nethree_clients)" using s(4) r(4) by simp
  have mono: "\<forall>c. closed (sendq w c) \<longrightarrow> closed (sendq w' c)" using s(6) r(6) by blast
  show ?case
    apply (rule exI[of _ w'])
    apply (rule exI[of _ "new1 @ nethree_clients"])
    apply (intro conjI)
    apply (rule rn)
    apply (rule r(2))
    apply (rule reg)
    apply (rule o)
    apply (rule sub)
    apply (rule mono)
    done
qed

subsection \<open>The claims about the hub\<close>

text \<open>
  \<open>hub_inv\<close>, that no registered client has a closed queue, holds in every state the
  program reaches from its start (\<open>reachable_hub_inv\<close>).
\<close>

lemma closed_inv_Nil: "closed_inv w [] = hub_inv w"
  unfolding closed_inv_def hub_inv_def by auto

lemma closed_inv_init: "closed_inv init es"
  by (simp add: closed_inv_def init_def make_chan_def)

lemma registered_init: "registered init = {}"
  by (simp add: registered_def init_def newHub_def)

lemma reachable_hub_inv:
  assumes "causal es" "sched_ok init es"
  shows "\<exists>w. run es init = Inr w \<and> hub_inv w"
  using run_char[OF closed_inv_init assms] unfolding closed_inv_Nil by blast

lemma count_fanout_ops:
  "distinct order \<Longrightarrow>
   filter (\<lambda>x. op_client x = c) (map (\<lambda>c. if has_room w c then Enqueue c m else Close c) order)
     = (if c \<in> set order then [if has_room w c then Enqueue c m else Close c] else [])"
  by (induction order) auto

lemma drop_ops: "ops w' = ops w @ new \<Longrightarrow> drop (length (ops w)) (ops w') = new"
  by simp

text \<open>
  C5: from the start of the program, after any sequence of events in which every
  registration of a client precedes its deregistrations and the broadcasts that range
  over it, the hub has not panicked and the registry holds exactly the clients
  registered, minus those deregistered, minus those evicted for a full queue. The
  sequence is arbitrary otherwise, and write pumps may drain queues in between.
\<close>

theorem registry_after_run:
  assumes "causal es" "sched_ok init es"
  shows "\<exists>w'. run es init = Inr w' \<and>
           registered w' = registrations es - deregistrations es - evictions es init"
proof -
  from run_char[OF closed_inv_init assms] obtain w' where
    "run es init = Inr w'"
    "registered w' = (registered init \<union> registrations es) - deregistrations es - evictions es init"
    by (elim exE conjE)
  then show ?thesis by (simp add: registered_init)
qed

theorem registry_after_run_witness:
  "causal [Register 1, Register 2, Broadcast ''hi'' [2, 1], Pump 1, Unregister 1, Unregister 1] \<and>
   sched_ok init [Register 1, Register 2, Broadcast ''hi'' [2, 1], Pump 1, Unregister 1, Unregister 1] \<and>
   (\<exists>w'. run [Register 1, Register 2, Broadcast ''hi'' [2, 1], Pump 1, Unregister 1, Unregister 1] init = Inr w' \<and>
         registered w' = {2})"
proof -
  let ?es = "[Register 1, Register 2, Broadcast ''hi'' [2, 1], Pump 1, Unregister 1, Unregister 1]"
  have c: "causal ?es" by simp
  have s: "sched_ok init ?es"
    by (simp add: init_def newHub_def make_chan_def on_register_def range_order_def registered_def
      select_send_def Let_def pump_recv_def on_unregister_def close_send_def delete_client_def
      insert_commute)
  have e: "registrations ?es - deregistrations ?es - evictions ?es init = {2}"
    by (simp add: registrations_def deregistrations_def has_room_def
      init_def newHub_def make_chan_def on_register_def range_order_def registered_def
      select_send_def Let_def pump_recv_def on_unregister_def close_send_def delete_client_def)
  from registry_after_run[OF c s] e c s show ?thesis by simp
qed

lemma step_broadcast_eq:
  assumes "hub_inv w" "range_order w order"
  shows "step (Broadcast m order) w = Inr (fanout_result order m w)"
proof -
  have d: "distinct order" and s: "set order = registered w"
    using assms(2) by (simp_all add: range_order_def)
  have "\<forall>c\<in>set order. \<not> closed (sendq w c)"
    using assms(1) s unfolding hub_inv_def by simp
  from fanout_eq[OF d this] show ?thesis by simp
qed

lemma enqueue_ops_all_room:
  "\<forall>c\<in>set order. has_room w c \<Longrightarrow>
   map (\<lambda>c. if has_room w c then Enqueue c m else Close c) order = map (\<lambda>c. Enqueue c m) order"
  by (induction order) simp_all

lemma count_enqueue_distinct:
  "distinct order \<Longrightarrow>
   count_list (map (\<lambda>c. Enqueue c m) order) (Enqueue d m) = (if d \<in> set order then 1 else 0)"
  by (induction order) auto

text \<open>
  C2: in a state of the running hub (\<open>hub_inv\<close>), whatever the order of the range, a
  broadcast while every registered client's queue has room performs exactly one
  enqueue per registered client, as many as there are registered clients, each appending
  the message once to that client's queue; nothing else changes, and the sender, being
  registered, is among the recipients.
\<close>

theorem broadcast_enqueues_once_per_client:
  assumes inv: "hub_inv w" and ro: "range_order w order"
    and room: "\<forall>c\<in>registered w. has_room w c"
  shows "\<exists>w'. step (Broadcast m order) w = Inr w' \<and>
           drop (length (ops w)) (ops w') = map (\<lambda>c. Enqueue c m) order \<and>
           length order = card (registered w) \<and>
           (\<forall>c\<in>registered w.
              count_list (drop (length (ops w)) (ops w')) (Enqueue c m) = 1 \<and>
              buf (sendq w' c) = buf (sendq w c) @ [m]) \<and>
           (\<forall>c. c \<notin> registered w \<longrightarrow> sendq w' c = sendq w c) \<and>
           registered w' = registered w \<and>
           (sender \<in> registered w \<longrightarrow>
              Enqueue sender m \<in> set (drop (length (ops w)) (ops w')))"
proof -
  let ?w' = "fanout_result order m w"
  have d: "distinct order" and s: "set order = registered w"
    using ro by (simp_all add: range_order_def)
  have st: "step (Broadcast m order) w = Inr ?w'"
    using inv ro by (rule step_broadcast_eq)
  have allroom: "\<forall>c\<in>set order. has_room w c" using room s by simp
  have o: "drop (length (ops w)) (ops ?w') = map (\<lambda>c. Enqueue c m) order"
    by (simp add: fanout_result_simps enqueue_ops_all_room[OF allroom])
  have n: "length order = card (registered w)"
    using distinct_card[OF d] s by simp
  have per: "\<forall>c\<in>registered w.
              count_list (drop (length (ops w)) (ops ?w')) (Enqueue c m) = 1 \<and>
              buf (sendq ?w' c) = buf (sendq w c) @ [m]"
  proof
    fix c assume c: "c \<in> registered w"
    then have co: "c \<in> set order" and r: "has_room w c" using s room by simp_all
    have "count_list (map (\<lambda>c. Enqueue c m) order) (Enqueue c m) = 1"
      using count_enqueue_distinct[OF d, of m c] co by simp
    moreover have "buf (sendq ?w' c) = buf (sendq w c) @ [m]"
      using co r by (simp add: fanout_result_simps)
    ultimately show "count_list (drop (length (ops w)) (ops ?w')) (Enqueue c m) = 1 \<and>
              buf (sendq ?w' c) = buf (sendq w c) @ [m]"
      unfolding o by simp
  qed
  have oth: "\<forall>c. c \<notin> registered w \<longrightarrow> sendq ?w' c = sendq w c"
    using s by (simp add: fanout_result_simps)
  have reg: "registered ?w' = registered w"
    using registered_fanout_result[OF s, of m] room by auto
  have snd: "sender \<in> registered w \<longrightarrow>
              Enqueue sender m \<in> set (drop (length (ops w)) (ops ?w'))"
    unfolding o using s by auto
  show ?thesis
    apply (rule exI[of _ ?w'])
    apply (intro conjI)
    apply (rule st)
    apply (rule o)
    apply (rule n)
    apply (rule per)
    apply (rule oth)
    apply (rule reg)
    apply (rule snd)
    done
qed

theorem broadcast_enqueues_once_per_client_witness:
  "hub_inv three_clients \<and> range_order three_clients [3, 1, 2] \<and>
   registered three_clients = {1, 2, 3} \<and>
   has_room three_clients 1 \<and> has_room three_clients 2 \<and> has_room three_clients 3 \<and>
   (\<exists>w'. step (Broadcast ''hello'' [3, 1, 2]) three_clients = Inr w' \<and>
      ops w' = [Enqueue 3 ''hello'', Enqueue 1 ''hello'', Enqueue 2 ''hello''] \<and>
      card (registered three_clients) = 3 \<and>
      buf (sendq w' 1) = [''hello''] \<and> Enqueue 1 ''hello'' \<in> set (ops w'))"
proof -
  have r: "registered three_clients = {1, 2, 3}"
    by (auto simp: registered_def three_clients_def newHub_def)
  have i: "hub_inv three_clients" by (simp add: hub_inv_def r) (simp add: three_clients_def make_chan_def)
  have o: "range_order three_clients [3, 1, 2]" by (auto simp: range_order_def r)
  have h: "\<forall>c\<in>registered three_clients. has_room three_clients c"
    by (simp add: r) (simp add: has_room_def three_clients_def make_chan_def)
  have e: "ops three_clients = []" "buf (sendq three_clients 1) = []"
    by (simp_all add: three_clients_def make_chan_def)
  have e3: "(1::nat) \<in> registered three_clients" by (simp add: r)
  from broadcast_enqueues_once_per_client[OF i o h, of "''hello''" 1]
  show ?thesis using i o h e e3 r by auto
qed

text \<open>
  C6: a deregistration of a client that is not in the registry returns the state as it
  was: no panic, no operation on the client's queue, the registry unchanged. After any
  deregistration of a client the client is absent, so a second one is such a no-op.
\<close>

theorem unregister_absent_noop:
  "(c \<notin> registered w \<longrightarrow> step (Unregister c) w = Inr w) \<and>
   (\<forall>w1. step (Unregister c) w = Inr w1 \<longrightarrow>
         c \<notin> registered w1 \<and> step (Unregister c) w1 = Inr w1)"
proof (intro conjI allI impI)
  assume "c \<notin> registered w"
  then show "step (Unregister c) w = Inr w"
    by (simp add: on_unregister_def registered_def domIff)
next
  fix w1 assume s: "step (Unregister c) w = Inr w1"
  show a: "c \<notin> registered w1"
    using s
    by (auto simp: on_unregister_def registered_def close_send_def delete_client_def
        split: if_splits)
  then show "step (Unregister c) w1 = Inr w1"
    by (simp add: on_unregister_def registered_def domIff)
qed

theorem unregister_absent_noop_witness:
  "2 \<notin> registered one_client \<and> step (Unregister 2) one_client = Inr one_client \<and>
   (\<exists>w1. step (Unregister 1) one_client = Inr w1 \<and> ops w1 = [Close 1] \<and>
         1 \<notin> registered w1 \<and> step (Unregister 1) w1 = Inr w1)"
proof -
  have a: "2 \<notin> registered one_client"
    by (simp add: registered_def one_client_def)
  have "\<exists>w1. step (Unregister 1) one_client = Inr w1 \<and> ops w1 = [Close 1]"
    by (simp add: on_unregister_def one_client_def close_send_def delete_client_def
        make_chan_def)
  then obtain w1 where b: "step (Unregister 1) one_client = Inr w1" "ops w1 = [Close 1]"
    by (elim exE conjE)
  from unregister_absent_noop[of 2 one_client] a
  have c: "step (Unregister 2) one_client = Inr one_client" by blast
  from unregister_absent_noop[of 1 one_client] b(1)
  have d: "1 \<notin> registered w1 \<and> step (Unregister 1) w1 = Inr w1" by blast
  show ?thesis using a b c d by blast
qed

lemma hub_inv_of_closed_inv: "closed_inv w es \<Longrightarrow> hub_inv w"
  unfolding closed_inv_def hub_inv_def by blast

lemma filter_ops_none:
  "c \<notin> op_client ` set new \<Longrightarrow> filter (\<lambda>x. op_client x = c) new = []"
  by (induction new) auto

text \<open>
  C1: in a causally ordered run from a state of the running hub (\<open>closed_inv\<close>),
  when a broadcast reaches a registered client whose queue is at capacity, the
  fan-out completes without a panic, the client is out of the registry, its queue is
  closed with its contents as they were (the message is not buffered), the only
  operation on that queue is one close, and every registered client with room still gets
  the message. In the rest of the run the hub performs no operation on that client's
  queue (no enqueue, no second close) and the client stays out of the registry.
\<close>

theorem full_queue_client_evicted_once:
  assumes inv: "closed_inv w (Broadcast m order # es)"
    and cau: "causal (Broadcast m order # es)"
    and sch: "sched_ok w (Broadcast m order # es)"
    and c: "c \<in> registered w" and full: "\<not> has_room w c"
  shows "\<exists>w1 w'. step (Broadcast m order) w = Inr w1 \<and>
           c \<notin> registered w1 \<and> closed (sendq w1 c) \<and> buf (sendq w1 c) = buf (sendq w c) \<and>
           filter (\<lambda>x. op_client x = c) (drop (length (ops w)) (ops w1)) = [Close c] \<and>
           (\<forall>d\<in>registered w. has_room w d \<longrightarrow>
              d \<in> registered w1 \<and> buf (sendq w1 d) = buf (sendq w d) @ [m]) \<and>
           run es w1 = Inr w' \<and> c \<notin> registered w' \<and> closed (sendq w' c) \<and>
           filter (\<lambda>x. op_client x = c) (drop (length (ops w1)) (ops w')) = []"
proof -
  let ?w1 = "fanout_result order m w"
  have ro: "range_order w order" using sch by simp
  have d: "distinct order" and s: "set order = registered w"
    using ro by (simp_all add: range_order_def)
  have st: "step (Broadcast m order) w = Inr ?w1"
    using hub_inv_of_closed_inv[OF inv] ro by (rule step_broadcast_eq)
  have co: "c \<in> set order" using c s by simp
  have reg1: "registered ?w1 = {c \<in> registered w. has_room w c}"
    using s by (rule registered_fanout_result)
  have a1: "c \<notin> registered ?w1" using full reg1 by simp
  have a2: "closed (sendq ?w1 c)" "buf (sendq ?w1 c) = buf (sendq w c)"
    using co full by (simp_all add: fanout_result_simps)
  have a3: "filter (\<lambda>x. op_client x = c) (drop (length (ops w)) (ops ?w1)) = [Close c]"
    using count_fanout_ops[OF d, of c w m] co full by (simp add: fanout_result_simps)
  have a4: "\<forall>d\<in>registered w. has_room w d \<longrightarrow>
              d \<in> registered ?w1 \<and> buf (sendq ?w1 d) = buf (sendq w d) @ [m]"
    using s reg1 by (simp add: fanout_result_simps)
  from step_char[OF inv cau sch] st have ci: "closed_inv ?w1 es" by auto
  have c2: "causal es" using cau by simp
  have s2: "sched_ok ?w1 es" using sch st by simp
  have nr: "c \<notin> registrations es" using cau co by (simp add: mem_registrations)
  from run_char[OF ci c2 s2] obtain w' new where
    r: "run es ?w1 = Inr w'"
      "registered w' = (registered ?w1 \<union> registrations es) - deregistrations es - evictions es ?w1"
      "ops w' = ops ?w1 @ new" "op_client ` set new \<subseteq> registered ?w1 \<union> registrations es"
      "\<forall>c. closed (sendq ?w1 c) \<longrightarrow> closed (sendq w' c)"
    by (elim exE conjE)
  have b1: "c \<notin> registered w'" unfolding r(2) using a1 nr by blast
  have b2: "closed (sendq w' c)" using r(5) a2(1) by blast
  have "c \<notin> op_client ` set new" using r(4) a1 nr by blast
  then have b3: "filter (\<lambda>x. op_client x = c) (drop (length (ops ?w1)) (ops w')) = []"
    unfolding r(3) by (simp add: filter_ops_none)
  show ?thesis
    apply (rule exI[of _ ?w1])
    apply (rule exI[of _ w'])
    apply (intro conjI)
    apply (rule st)
    apply (rule a1)
    apply (rule a2(1))
    apply (rule a2(2))
    apply (rule a3)
    apply (rule a4)
    apply (rule r(1))
    apply (rule b1)
    apply (rule b2)
    apply (rule b3)
    done
qed

text \<open>
  C10: in a state of the running hub (\<open>hub_inv\<close>), whatever the order of the range,
  in one broadcast the clients that get an enqueue are exactly the registered
  clients whose queue had room; for a registered client whose queue was full the queue
  is the old one with the closed flag set, and the only operation on it is the close.
\<close>

theorem evicted_client_gets_no_message:
  assumes inv: "hub_inv w" and ro: "range_order w order"
  shows "\<exists>w'. step (Broadcast m order) w = Inr w' \<and>
           (\<forall>c. (\<exists>m'. Enqueue c m' \<in> set (drop (length (ops w)) (ops w')))
                 \<longleftrightarrow> c \<in> registered w \<and> has_room w c) \<and>
           (\<forall>c\<in>registered w. \<not> has_room w c \<longrightarrow>
              sendq w' c = (sendq w c)\<lparr>closed := True\<rparr> \<and> c \<notin> registered w' \<and>
              filter (\<lambda>x. op_client x = c) (drop (length (ops w)) (ops w')) = [Close c])"
proof -
  let ?w' = "fanout_result order m w"
  let ?new = "map (\<lambda>c. if has_room w c then Enqueue c m else Close c) order"
  have d: "distinct order" and s: "set order = registered w"
    using ro by (simp_all add: range_order_def)
  have st: "step (Broadcast m order) w = Inr ?w'"
    using inv ro by (rule step_broadcast_eq)
  have o: "drop (length (ops w)) (ops ?w') = ?new"
    by (simp add: fanout_result_simps)
  have e: "\<And>c m'. Enqueue c m' \<in> set ?new \<longleftrightarrow> (c \<in> set order \<and> has_room w c \<and> m' = m)"
    by (induction order) auto
  have a: "\<forall>c. (\<exists>m'. Enqueue c m' \<in> set (drop (length (ops w)) (ops ?w')))
                 \<longleftrightarrow> c \<in> registered w \<and> has_room w c"
    unfolding o e s by blast
  have reg: "registered ?w' = {c \<in> registered w. has_room w c}"
    using s by (rule registered_fanout_result)
  have b: "\<forall>c\<in>registered w. \<not> has_room w c \<longrightarrow>
              sendq ?w' c = (sendq w c)\<lparr>closed := True\<rparr> \<and> c \<notin> registered ?w' \<and>
              filter (\<lambda>x. op_client x = c) (drop (length (ops w)) (ops ?w')) = [Close c]"
  proof (intro ballI impI)
    fix c assume c: "c \<in> registered w" and f: "\<not> has_room w c"
    have co: "c \<in> set order" using c s by simp
    have "sendq ?w' c = (sendq w c)\<lparr>closed := True\<rparr>"
      using co f by (simp add: fanout_result_simps)
    moreover have "c \<notin> registered ?w'" using f reg by simp
    moreover have "filter (\<lambda>x. op_client x = c) (drop (length (ops w)) (ops ?w')) = [Close c]"
      unfolding o using count_fanout_ops[OF d, of c w m] co f by simp
    ultimately show "sendq ?w' c = (sendq w c)\<lparr>closed := True\<rparr> \<and> c \<notin> registered ?w' \<and>
              filter (\<lambda>x. op_client x = c) (drop (length (ops w)) (ops ?w')) = [Close c]"
      by blast
  qed
  show ?thesis
    apply (rule exI[of _ ?w'])
    apply (intro conjI)
    apply (rule st)
    apply (rule a)
    apply (rule b)
    done
qed

lemma stalled_client_facts:
  "registered stalled_client = {2, 3}"
  "\<not> has_room stalled_client 2"
  "has_room stalled_client 3"
  "hub_inv stalled_client"
  "buf (sendq stalled_client 2) = replicate 256 ''x''"
  "buf (sendq stalled_client 3) = []"
  "\<And>es. closed_inv stalled_client es"
  by (auto simp: stalled_client_def registered_def newHub_def has_room_def make_chan_def
      hub_inv_def closed_inv_def)

theorem full_queue_client_evicted_once_witness:
  "closed_inv stalled_client [Broadcast ''a'' [2, 3], Broadcast ''b'' [3], Unregister 2] \<and>
   causal [Broadcast ''a'' [2, 3], Broadcast ''b'' [3], Unregister 2] \<and>
   sched_ok stalled_client [Broadcast ''a'' [2, 3], Broadcast ''b'' [3], Unregister 2] \<and>
   2 \<in> registered stalled_client \<and> \<not> has_room stalled_client 2 \<and>
   (\<exists>w1 w'. step (Broadcast ''a'' [2, 3]) stalled_client = Inr w1 \<and>
      2 \<notin> registered w1 \<and> closed (sendq w1 2) \<and> buf (sendq w1 2) = replicate 256 ''x'' \<and>
      filter (\<lambda>x. op_client x = 2) (ops w1) = [Close 2] \<and>
      buf (sendq w1 3) = [''a''] \<and>
      run [Broadcast ''b'' [3], Unregister 2] w1 = Inr w' \<and> 2 \<notin> registered w' \<and>
      filter (\<lambda>x. op_client x = 2) (drop (length (ops w1)) (ops w')) = [])"
proof -
  let ?es = "[Broadcast ''b'' [3], Unregister 2]"
  have h1: "closed_inv stalled_client (Broadcast ''a'' [2, 3] # ?es)"
    by (rule stalled_client_facts)
  have h2: "causal (Broadcast ''a'' [2, 3] # ?es)" by simp
  have r0: "range_order stalled_client [2, 3]"
    by (simp add: range_order_def stalled_client_facts)
  have s0: "step (Broadcast ''a'' [2, 3]) stalled_client
              = Inr (fanout_result [2, 3] ''a'' stalled_client)"
    using stalled_client_facts(4) r0 by (rule step_broadcast_eq)
  have r1: "registered (fanout_result [2, 3] ''a'' stalled_client) = {3}"
  proof -
    have "set [2, 3] = registered stalled_client" by (simp add: stalled_client_facts)
    from registered_fanout_result[OF this, of "''a''"]
    have "registered (fanout_result [2, 3] ''a'' stalled_client)
            = {c \<in> {2, 3}. has_room stalled_client c}"
      by (simp only: stalled_client_facts)
    also have "\<dots> = {3}"
      using stalled_client_facts(2,3) by blast
    finally show ?thesis .
  qed
  have i1: "hub_inv (fanout_result [2, 3] ''a'' stalled_client)"
    by (simp add: hub_inv_def r1 fanout_result_simps stalled_client_facts)
      (simp add: stalled_client_def make_chan_def)
  have r2: "range_order (fanout_result [2, 3] ''a'' stalled_client) [3]"
    by (simp add: range_order_def r1)
  have s1: "step (Broadcast ''b'' [3]) (fanout_result [2, 3] ''a'' stalled_client)
              = Inr (fanout_result [3] ''b'' (fanout_result [2, 3] ''a'' stalled_client))"
    using i1 r2 by (rule step_broadcast_eq)
  have h3: "sched_ok stalled_client (Broadcast ''a'' [2, 3] # ?es)"
    using r0 r2 s0 s1 by (simp add: on_unregister_def split: sum.split)
  have h4: "2 \<in> registered stalled_client" by (simp add: stalled_client_facts)
  have h5: "\<not> has_room stalled_client 2" by (rule stalled_client_facts)
  have o: "ops stalled_client = []" by (simp add: stalled_client_def)
  from full_queue_client_evicted_once[OF h1 h2 h3 h4 h5] obtain w1 w' where
    w: "step (Broadcast ''a'' [2, 3]) stalled_client = Inr w1"
      "2 \<notin> registered w1" "closed (sendq w1 2)"
      "buf (sendq w1 2) = buf (sendq stalled_client 2)"
      "filter (\<lambda>x. op_client x = 2) (drop (length (ops stalled_client)) (ops w1)) = [Close 2]"
      "\<forall>d\<in>registered stalled_client. has_room stalled_client d \<longrightarrow>
              d \<in> registered w1 \<and> buf (sendq w1 d) = buf (sendq stalled_client d) @ [''a'']"
      "run ?es w1 = Inr w'" "2 \<notin> registered w'"
      "filter (\<lambda>x. op_client x = 2) (drop (length (ops w1)) (ops w')) = []"
    by (elim exE conjE)
  have a: "buf (sendq w1 2) = replicate 256 ''x''"
    using w(4) by (simp add: stalled_client_facts)
  have b: "filter (\<lambda>x. op_client x = 2) (ops w1) = [Close 2]"
    using w(5) by (simp add: o)
  have c: "buf (sendq w1 3) = [''a'']"
    using w(6) by (simp add: stalled_client_facts)
  show ?thesis
    using h1 h2 h3 h4 h5 w(1) w(2) w(3) a b c w(7) w(8) w(9) by blast
qed

theorem evicted_client_gets_no_message_witness:
  "hub_inv stalled_client \<and> range_order stalled_client [3, 2] \<and>
   (\<exists>w'. step (Broadcast ''a'' [3, 2]) stalled_client = Inr w' \<and>
      buf (sendq w' 2) = replicate 256 ''x'' \<and> closed (sendq w' 2) \<and>
      2 \<notin> registered w' \<and> filter (\<lambda>x. op_client x = 2) (ops w') = [Close 2] \<and>
      (\<exists>m'. Enqueue 3 m' \<in> set (ops w')) \<and> (\<forall>m'. Enqueue 2 m' \<notin> set (ops w')))"
proof -
  have i: "hub_inv stalled_client" by (rule stalled_client_facts)
  have r: "range_order stalled_client [3, 2]"
    by (auto simp: range_order_def stalled_client_facts)
  have o: "ops stalled_client = []" by (simp add: stalled_client_def)
  have s: "sendq stalled_client 2 = \<lparr>buf = replicate 256 ''x'', cap = 256, closed = False\<rparr>"
    by (simp add: stalled_client_def)
  from evicted_client_gets_no_message[OF i r, of "''a''"] obtain w' where
    w: "step (Broadcast ''a'' [3, 2]) stalled_client = Inr w'"
      "\<forall>c. (\<exists>m'. Enqueue c m' \<in> set (drop (length (ops stalled_client)) (ops w')))
                 \<longleftrightarrow> c \<in> registered stalled_client \<and> has_room stalled_client c"
      "\<forall>c\<in>registered stalled_client. \<not> has_room stalled_client c \<longrightarrow>
              sendq w' c = (sendq stalled_client c)\<lparr>closed := True\<rparr> \<and> c \<notin> registered w' \<and>
              filter (\<lambda>x. op_client x = c) (drop (length (ops stalled_client)) (ops w')) = [Close c]"
    by (elim exE conjE)
  have a: "sendq w' 2 = (sendq stalled_client 2)\<lparr>closed := True\<rparr> \<and> 2 \<notin> registered w' \<and>
              filter (\<lambda>x. op_client x = 2) (ops w') = [Close 2]"
    using w(3) by (simp add: stalled_client_facts o)
  have b: "\<exists>m'. Enqueue 3 m' \<in> set (ops w')"
    using spec[OF w(2), of 3] by (simp add: stalled_client_facts o)
  have c: "\<forall>m'. Enqueue 2 m' \<notin> set (ops w')"
    using spec[OF w(2), of 2] by (simp add: stalled_client_facts o)
  show ?thesis
    using i r w(1) a b c by (simp add: s)
qed

section \<open>The read pump\<close>

lemma Replace_byte:
  "Replace s [a] [b] = map (\<lambda>x. if x = a then b else x) s"
  by (induction s) simp_all

lemma leading_space_0_iff:
  "leading_space s = 0 \<longleftrightarrow> (\<forall>e\<in>set space_runes. take (length e) s \<noteq> e)"
proof -
  have ne: "\<And>e. e \<in> set space_runes \<Longrightarrow> length e \<noteq> 0"
    by (auto simp: space_runes_def)
  show ?thesis
  proof (cases "find (\<lambda>e. take (length e) s = e) space_runes")
    case None
    have "leading_space s = 0" using None by (simp add: leading_space_def)
    moreover have "\<forall>e\<in>set space_runes. take (length e) s \<noteq> e"
      using None unfolding find_None_iff by blast
    ultimately show ?thesis by blast
  next
    case (Some e)
    then have "e \<in> set space_runes" "take (length e) s = e"
      by (auto simp: find_Some_iff)
    then show ?thesis using Some ne by (auto simp: leading_space_def)
  qed
qed

lemma leading_space_take: "leading_space s = 0 \<Longrightarrow> leading_space (take k s) = 0"
  unfolding leading_space_0_iff
proof
  fix e assume a: "\<forall>e\<in>set space_runes. take (length e) s \<noteq> e" and e: "e \<in> set space_runes"
  show "take (length e) (take k s) \<noteq> e"
  proof
    assume t: "take (length e) (take k s) = e"
    then have "length (take (length e) (take k s)) = length e" by simp
    then have "length e \<le> k" by simp
    then have "take (length e) s = e" using t by (simp add: min_absorb1)
    then show False using a e by blast
  qed
qed

lemma TrimLeft_no_leading: "leading_space (TrimLeft s) = 0"
  by (induction s rule: TrimLeft.induct) (subst TrimLeft.simps, simp)

lemma TrimRight_no_trailing: "trailing_space (TrimRight s) = 0"
  by (induction s rule: TrimRight.induct) (subst TrimRight.simps, simp)

lemma TrimLeft_drop: "\<exists>k. TrimLeft s = drop k s"
proof (induction s rule: TrimLeft.induct)
  case (1 s)
  show ?case
  proof (cases "leading_space s = 0")
    case True
    then have "TrimLeft s = drop 0 s" by (subst TrimLeft.simps) simp
    then show ?thesis by blast
  next
    case False
    from 1[OF False] obtain k where "TrimLeft (drop (leading_space s) s) = drop k (drop (leading_space s) s)"
      by blast
    then have "TrimLeft s = drop (k + leading_space s) s"
      using False by (subst TrimLeft.simps) simp
    then show ?thesis by blast
  qed
qed

lemma TrimRight_take: "\<exists>k. TrimRight s = take k s"
proof (induction s rule: TrimRight.induct)
  case (1 s)
  show ?case
  proof (cases "trailing_space s = 0")
    case True
    then have "TrimRight s = take (length s) s" by (subst TrimRight.simps) simp
    then show ?thesis by blast
  next
    case False
    from 1[OF False] obtain k where
      "TrimRight (take (length s - trailing_space s) s) = take k (take (length s - trailing_space s) s)"
      by blast
    then have "TrimRight s = take (min k (length s - trailing_space s)) s"
      using False by (subst TrimRight.simps) simp
    then show ?thesis by blast
  qed
qed

lemma TrimSpace_part: "\<exists>pre suf. s = pre @ TrimSpace s @ suf"
proof -
  obtain k where k: "TrimLeft s = drop k s" using TrimLeft_drop by blast
  obtain j where j: "TrimRight (drop k s) = take j (drop k s)" using TrimRight_take by blast
  have t: "TrimSpace s = take j (drop k s)" by (simp add: TrimSpace_def k j)
  have "s = take k s @ take j (drop k s) @ drop j (drop k s)"
    by (simp only: append_take_drop_id)
  then have "s = take k s @ TrimSpace s @ drop j (drop k s)"
    by (simp only: t)
  then show ?thesis by blast
qed

lemma TrimSpace_trimmed: "leading_space (TrimSpace s) = 0 \<and> trailing_space (TrimSpace s) = 0"
proof -
  obtain j where j: "TrimRight (TrimLeft s) = take j (TrimLeft s)" using TrimRight_take by blast
  have "leading_space (take j (TrimLeft s)) = 0"
    using TrimLeft_no_leading by (rule leading_space_take)
  then have "leading_space (TrimSpace s) = 0"
    by (simp only: TrimSpace_def j)
  moreover have "trailing_space (TrimSpace s) = 0"
    unfolding TrimSpace_def by (rule TrimRight_no_trailing)
  ultimately show ?thesis by blast
qed

lemma set_TrimSpace: "set (TrimSpace s) \<subseteq> set s"
proof -
  obtain pre suf where "s = pre @ TrimSpace s @ suf" using TrimSpace_part by blast
  then have "set s = set pre \<union> set (TrimSpace s) \<union> set suf"
    by (metis set_append sup_assoc)
  then show ?thesis by blast
qed

text \<open>
  C3: for every message read, the read pump sends exactly one message to the hub's
  \<open>broadcast\<close> channel: the message with every newline byte replaced by one space and all
  leading and trailing white space removed. The payload contains no newline byte, has no
  white space at either end, and is a contiguous part of the message after the
  replacement. (A run of k newlines becomes k spaces.)
\<close>

theorem readPump_replaces_newlines_and_trims:
  "readPump c (Inr message # reads) = ToBroadcast (normalize_msg message) # readPump c reads \<and>
   normalize_msg message = TrimSpace (map (\<lambda>b. if b = CHR 0x0A then CHR 0x20 else b) message) \<and>
   CHR 0x0A \<notin> set (normalize_msg message) \<and>
   leading_space (normalize_msg message) = 0 \<and> trailing_space (normalize_msg message) = 0 \<and>
   (\<exists>pre suf. map (\<lambda>b. if b = CHR 0x0A then CHR 0x20 else b) message
                = pre @ normalize_msg message @ suf)"
proof -
  let ?r = "map (\<lambda>b. if b = CHR 0x0A then CHR 0x20 else b) message"
  have n: "normalize_msg message = TrimSpace ?r"
    by (simp add: normalize_msg_def newline_def space_def Replace_byte)
  have "CHR 0x0A \<notin> set ?r" by auto
  then have a: "CHR 0x0A \<notin> set (normalize_msg message)"
    unfolding n using set_TrimSpace[of ?r] by blast
  have b: "leading_space (normalize_msg message) = 0 \<and> trailing_space (normalize_msg message) = 0"
    unfolding n by (rule TrimSpace_trimmed)
  have p: "\<exists>pre suf. ?r = pre @ normalize_msg message @ suf"
    unfolding n by (rule TrimSpace_part)
  show ?thesis using n a b p by simp
qed

text \<open>
  A run of two newlines inside a message becomes two spaces, not a single delimiter.
\<close>

theorem newline_runs_not_collapsed:
  "normalize_msg (''a'' @ [CHR 0x0A, CHR 0x0A] @ ''b'') = ''a  b'' \<and>
   normalize_spec (''a'' @ [CHR 0x0A, CHR 0x0A] @ ''b'') = ''a b'' \<and>
   normalize_msg (''a'' @ [CHR 0x0A, CHR 0x0A] @ ''b'')
     \<noteq> normalize_spec (''a'' @ [CHR 0x0A, CHR 0x0A] @ ''b'')"
  by (simp add: normalize_msg_def normalize_spec_def TrimSpace_def newline_def space_def
      leading_space_def trailing_space_def space_runes_def
      TrimLeft.simps TrimRight.simps)

theorem readPump_replaces_newlines_and_trims_witness:
  "readPump 1 [Inr (''hello'' @ [CHR 0x0A] @ ''  world  ''), Inl False]
     = [ToBroadcast ''hello   world'', ToUnregister 1, ConnClose]"
proof -
  have "normalize_msg (''hello'' @ [CHR 0x0A] @ ''  world  '') = ''hello   world''"
    by (simp add: normalize_msg_def TrimSpace_def newline_def space_def
      leading_space_def trailing_space_def space_runes_def
      TrimLeft.simps TrimRight.simps)
  then show ?thesis
    using readPump_replaces_newlines_and_trims[of 1 "''hello'' @ [CHR 0x0A] @ ''  world  ''" "[Inl False]"]
    by simp
qed

section \<open>The write pump\<close>

lemma hub_does_appends: "\<exists>extra. buf (hub_does ch a) = buf ch @ extra"
  by (cases a) auto

lemma hub_acts_append: "\<exists>extra. buf (foldl hub_does ch acts) = buf ch @ extra"
proof (induction acts arbitrary: ch)
  case Nil
  then show ?case by simp
next
  case (Cons a acts)
  obtain e1 where e1: "buf (hub_does ch a) = buf ch @ e1"
    using hub_does_appends by blast
  obtain e2 where "buf (foldl hub_does (hub_does ch a) acts) = buf (hub_does ch a) @ e2"
    using Cons.IH by blast
  then have "buf (foldl hub_does ch (a # acts)) = buf ch @ (e1 @ e2)"
    using e1 by simp
  then show ?case by blast
qed

lemma drain_takes:
  "n \<le> length (buf ch) \<Longrightarrow>
   \<exists>ch' later. drain n during ch frame
           = Some (frame @ concat (map (\<lambda>x. newline @ x) (take n (buf ch))), ch') \<and>
         buf ch' = drop n (buf ch) @ later"
proof (induction n arbitrary: during ch frame)
  case 0
  then show ?case by simp
next
  case (Suc n)
  let ?acts = "case during of [] \<Rightarrow> [] | a # as \<Rightarrow> a"
  let ?ch1 = "foldl hub_does ch ?acts"
  obtain b bs where b: "buf ch = b # bs" using Suc.prems by (cases "buf ch") auto
  obtain extra where e: "buf ?ch1 = b # bs @ extra"
    using hub_acts_append[of ch ?acts] b by auto
  let ?ch2 = "?ch1\<lparr>buf := bs @ extra\<rparr>"
  have r: "chanrecv ?ch1 = Some (b, True, ?ch2)" by (simp add: chanrecv_def e)
  have n: "n \<le> length (buf ?ch2)" using Suc.prems b by simp
  from Suc.IH[OF n, of "tl during" "frame @ newline @ b"] obtain ch' later where
    d: "drain n (tl during) ?ch2 (frame @ newline @ b)
          = Some ((frame @ newline @ b) @ concat (map (\<lambda>x. newline @ x) (take n (buf ?ch2))), ch')"
       "buf ch' = drop n (buf ?ch2) @ later"
    by blast
  have nl: "n \<le> length bs" using Suc.prems b by simp
  have "drain (Suc n) during ch frame
          = Some (frame @ concat (map (\<lambda>x. newline @ x) (take (Suc n) (buf ch))), ch')"
    using r d(1) nl by (simp add: b)
  moreover have "buf ch' = drop (Suc n) (buf ch) @ (extra @ later)"
    using d(2) nl by (simp add: b)
  ultimately show ?case by blast
qed

text \<open>
  C7: when the write pump receives a message and \<open>queued\<close> are the messages in the
  channel at the length check, the one text message it writes is the first message
  followed by each of \<open>queued\<close>, in queue order, each preceded by one newline, whatever the
  hub appends while the pump drains; the messages queued behind the first at the receive
  are the first of them.
\<close>

theorem writePump_coalesces_queued:
  assumes first: "buf ch = message # rest"
    and queued: "buf (foldl hub_does (ch\<lparr>buf := rest\<rparr>) before) = queued"
  shows "\<exists>ch3 later.
     writePump_send_case ch True before during True
       = Continue [TextMessage (message @ concat (map (\<lambda>x. newline @ x) queued))] ch3 \<and>
     buf ch3 = later \<and> (\<exists>arrived. queued = rest @ arrived)"
proof -
  let ?ch1 = "ch\<lparr>buf := rest\<rparr>"
  let ?ch2 = "foldl hub_does ?ch1 before"
  have r: "chanrecv ch = Some (message, True, ?ch1)"
    by (simp add: chanrecv_def first)
  have "length (buf ?ch2) \<le> length (buf ?ch2)" by simp
  from drain_takes[OF this, of during message] obtain ch3 later where
    d: "drain (length (buf ?ch2)) during ?ch2 message
          = Some (message @ concat (map (\<lambda>x. newline @ x) (take (length (buf ?ch2)) (buf ?ch2))), ch3)"
       "buf ch3 = drop (length (buf ?ch2)) (buf ?ch2) @ later"
    by blast
  have w: "writePump_send_case ch True before during True
       = Continue [TextMessage (message @ concat (map (\<lambda>x. newline @ x) queued))] ch3"
    using r d(1) queued by (simp add: writePump_send_case_def Let_def)
  have a: "\<exists>arrived. queued = rest @ arrived"
    using hub_acts_append[of ?ch1 before] queued by simp
  show ?thesis using w a by blast
qed

theorem writePump_coalesces_queued_witness:
  "buf three_queued = ''a'' # [''b'', ''c''] \<and>
   buf (foldl hub_does (three_queued\<lparr>buf := [''b'', ''c'']\<rparr>) [Push ''d'']) = [''b'', ''c'', ''d''] \<and>
   (\<exists>ch3. writePump_send_case three_queued True [Push ''d''] [[Push ''e'']] True
       = Continue [TextMessage (''a'' @ newline @ ''b'' @ newline @ ''c'' @ newline @ ''d'')] ch3)"
proof -
  have f: "buf three_queued = ''a'' # [''b'', ''c'']" by (simp add: three_queued_def)
  have q: "buf (foldl hub_does (three_queued\<lparr>buf := [''b'', ''c'']\<rparr>) [Push ''d''])
             = [''b'', ''c'', ''d'']"
    by (simp add: three_queued_def)
  from writePump_coalesces_queued[OF f q, of "[[Push ''e'']]"]
  show ?thesis using f q by auto
qed

section \<open>The connection entry point and the hub's channels\<close>

lemma select_send_registered:
  "select_send c m w = Inr w1 \<Longrightarrow> registered w1 \<subseteq> registered w"
  by (auto simp: select_send_def Let_def close_send_def delete_client_def registered_def
      split: if_splits)

lemma fanout_registered:
  "fanout order m w = Inr w1 \<Longrightarrow> registered w1 \<subseteq> registered w"
proof (induction order arbitrary: w)
  case Nil
  then show ?case by simp
next
  case (Cons c cs)
  then obtain w2 where a: "select_send c m w = Inr w2" and b: "fanout cs m w2 = Inr w1"
    by (auto split: sum.splits)
  from select_send_registered[OF a] Cons.IH[OF b] show ?case by blast
qed

lemma step_registered:
  "step e w = Inr w1 \<Longrightarrow> registered w1 \<subseteq> registered w \<union> set (registered_by e)"
proof (cases e)
  case (Register c)
  assume "step e w = Inr w1"
  then show ?thesis using Register by (auto simp: on_register_def registered_def)
next
  case (Unregister c)
  assume "step e w = Inr w1"
  then show ?thesis using Unregister
    by (auto simp: on_unregister_def close_send_def delete_client_def registered_def
        split: if_splits)
next
  case (Broadcast m order)
  assume "step e w = Inr w1"
  then show ?thesis using Broadcast fanout_registered[of order m w w1] by auto
next
  case (Pump c)
  assume "step e w = Inr w1"
  then show ?thesis using Pump by (auto simp: pump_recv_def registered_def)
qed

lemma run_registered:
  "run es w = Inr w' \<Longrightarrow> registered w' \<subseteq> registered w \<union> registrations es"
proof (induction es arbitrary: w)
  case Nil
  then show ?case by simp
next
  case (Cons e es)
  then obtain w1 where a: "step e w = Inr w1" and b: "run es w1 = Inr w'"
    by (auto split: sum.splits)
  from step_registered[OF a] Cons.IH[OF b] show ?case
    unfolding registrations_Cons by blast
qed

text \<open>
  C9: on a successful upgrade \<open>serveWs\<close> sends the client to the hub's \<open>register\<close>
  channel before it starts either pump; on a failed upgrade it only logs, making no
  client and no registration. In every run of the hub, a client that is in the registry
  (so that a broadcast can range over it) has had its registration received.
\<close>

theorem serveWs_registers_before_pumps:
  "(\<exists>pre post. serveWs (Some cn) c = pre @ SendRegister c # post \<and>
      GoWritePump c \<notin> set pre \<and> GoReadPump c \<notin> set pre \<and>
      GoWritePump c \<in> set post \<and> GoReadPump c \<in> set post) \<and>
   serveWs None c = [LogUpgradeError] \<and>
   (\<forall>es w. run es init = Inr w \<longrightarrow> c \<in> registered w \<longrightarrow> Register c \<in> set es)"
proof (intro conjI allI impI)
  show "\<exists>pre post. serveWs (Some cn) c = pre @ SendRegister c # post \<and>
      GoWritePump c \<notin> set pre \<and> GoReadPump c \<notin> set pre \<and>
      GoWritePump c \<in> set post \<and> GoReadPump c \<in> set post"
    apply (rule exI[of _ "[NewClient c \<lparr>conn = cn, send = make_chan 256\<rparr>]"])
    apply (rule exI[of _ "[GoWritePump c, GoReadPump c]"])
    apply (simp add: serveWs_def)
    done
  show "serveWs None c = [LogUpgradeError]" by (simp add: serveWs_def)
next
  fix es w assume "run es init = Inr w" "c \<in> registered w"
  then have "c \<in> registrations es"
    using run_registered[of es init w] by (auto simp: registered_init)
  then show "Register c \<in> set es" by (simp add: mem_registrations)
qed

theorem serveWs_registers_before_pumps_witness:
  "serveWs (Some 9) 4 =
     [NewClient 4 \<lparr>conn = 9, send = make_chan 256\<rparr>, SendRegister 4, GoWritePump 4, GoReadPump 4] \<and>
   (\<exists>w. run [Register 4, Broadcast ''x'' [4]] init = Inr w \<and> 4 \<in> registered w) \<and>
   Register 4 \<in> set [Register 4, Broadcast ''x'' [4]]"
proof -
  have a: "\<exists>w. run [Register 4, Broadcast ''x'' [4]] init = Inr w \<and> 4 \<in> registered w"
    by (simp add: init_def newHub_def make_chan_def on_register_def select_send_def Let_def
        registered_def)
  then obtain w where w: "run [Register 4, Broadcast ''x'' [4]] init = Inr w" "4 \<in> registered w"
    by blast
  from serveWs_registers_before_pumps[of 9 4] w
  have "Register 4 \<in> set [Register 4, Broadcast ''x'' [4]]" by blast
  then show ?thesis using a by (simp add: serveWs_def)
qed

text \<open>
  C4: the hub's \<open>register\<close>, \<open>unregister\<close> and \<open>broadcast\<close> channels are made with
  capacity zero: a send into one of them completes when the hub is receiving and parks
  the sender until then; it is never refused.
\<close>

theorem hub_channels_unbuffered:
  "cap (register newHub) = 0 \<and> cap (unregister newHub) = 0 \<and> cap (broadcast newHub) = 0 \<and>
   chansend (register newHub) c hub_receiving = (if hub_receiving then Handoff else Parked) \<and>
   chansend (unregister newHub) c hub_receiving = (if hub_receiving then Handoff else Parked) \<and>
   chansend (broadcast newHub) message hub_receiving
     = (if hub_receiving then Handoff else Parked)"
  by (simp add: newHub_def make_chan_def chansend_def)

text \<open>
  With the hub not at its \<open>select\<close>, a send into any of the hub's channels parks the
  sender.
\<close>

theorem hub_send_waits_for_hub:
  "cap (register newHub) = 0 \<and> chansend (register newHub) 7 False = Parked \<and>
   chansend (unregister newHub) 7 False = Parked \<and>
   chansend (broadcast newHub) ''hi'' False = Parked"
  by (simp add: newHub_def make_chan_def chansend_def)

end
